theory Spec2Isabelle
  imports Main "HOL-Library.Multiset"
begin

section \<open>Strings as the pipeline uses them\<close>

text \<open>
  Python strings are modelled as \<^typ>\<open>string\<close>: a list of characters, each a code point
  below 256. The pipeline only inspects ASCII characters (the path separator, the dot of
  an extension, the letters of \<^verbatim>\<open>.pdf\<close>, white space, decimal digits), so the
  operations below are the POSIX/ASCII behaviour of the library calls in \<^verbatim>\<open>src/ocr.py\<close>.
\<close>

definition isspace :: "char \<Rightarrow> bool" where
  \<comment> \<open>\<^verbatim>\<open>str.isspace\<close> on one code point below 256: TAB, LF, VT, FF, CR, FS, GS, RS, US,
      space, NEL and the no-break space.\<close>
  "isspace c = (of_char c \<in> set [9, 10, 11, 12, 13, 28, 29, 30, 31, 32, 133, 160 :: nat])"

definition lstrip :: "string \<Rightarrow> string" where
  "lstrip s = dropWhile isspace s"

definition rstrip :: "string \<Rightarrow> string" where
  "rstrip s = rev (dropWhile isspace (rev s))"

definition strip :: "string \<Rightarrow> string" where
  \<comment> \<open>\<^verbatim>\<open>str.strip()\<close> with no argument\<close>
  "strip s = rstrip (lstrip s)"

definition lower_char :: "char \<Rightarrow> char" where
  "lower_char c =
     (if of_char CHR ''A'' \<le> (of_char c :: nat) \<and> (of_char c :: nat) \<le> of_char CHR ''Z''
      then char_of (of_char c + 32 :: nat) else c)"

definition lower :: "string \<Rightarrow> string" where
  \<comment> \<open>\<^verbatim>\<open>str.lower()\<close>\<close>
  "lower s = map lower_char s"

definition endswith :: "string \<Rightarrow> string \<Rightarrow> bool" where
  \<comment> \<open>\<^verbatim>\<open>s.endswith(suffix)\<close>\<close>
  "endswith s sfx = (length sfx \<le> length s \<and> drop (length s - length sfx) s = sfx)"

definition startswith :: "string \<Rightarrow> string \<Rightarrow> bool" where
  "startswith s pfx = (take (length pfx) s = pfx)"

fun str_join :: "string \<Rightarrow> string list \<Rightarrow> string" where
  \<comment> \<open>\<^verbatim>\<open>sep.join(parts)\<close>\<close>
  "str_join sep [] = []"
| "str_join sep [x] = x"
| "str_join sep (x # y # ys) = x @ sep @ str_join sep (y # ys)"

definition digit_char :: "nat \<Rightarrow> char" where
  "digit_char d = char_of (48 + d)"

fun str_nat :: "nat \<Rightarrow> string" where
  \<comment> \<open>\<^verbatim>\<open>str(n)\<close> for a non-negative integer: decimal, no leading zero\<close>
  "str_nat n = (if n < 10 then [digit_char n] else str_nat (n div 10) @ [digit_char (n mod 10)])"

definition str_int :: "int \<Rightarrow> string" where
  \<comment> \<open>\<^verbatim>\<open>str(i)\<close> as an f-string formats an integer\<close>
  "str_int i = (if i < 0 then CHR ''-'' # str_nat (nat (- i)) else str_nat (nat i))"

subsection \<open>Paths (posixpath)\<close>

fun rfind :: "char \<Rightarrow> string \<Rightarrow> int" where
  \<comment> \<open>\<^verbatim>\<open>s.rfind(c)\<close>: the last index of \<open>c\<close>, or \<open>-1\<close>\<close>
  "rfind c [] = - 1"
| "rfind c (x # xs) =
     (let r = rfind c xs in if 0 \<le> r then r + 1 else if x = c then 0 else - 1)"

definition path_basename :: "string \<Rightarrow> string" where
  \<comment> \<open>\<^verbatim>\<open>os.path.basename(p)\<close>: \<^verbatim>\<open>i = p.rfind('/') + 1; return p[i:]\<close>\<close>
  "path_basename p = drop (nat (rfind CHR ''/'' p + 1)) p"

definition path_splitext :: "string \<Rightarrow> string \<times> string" where
  \<comment> \<open>\<^verbatim>\<open>os.path.splitext(p)\<close>: split at the last dot after the last separator, unless
      only dots stand between that separator and the dot\<close>
  "path_splitext p =
     (let sepIndex = rfind CHR ''/'' p; dotIndex = rfind CHR ''.'' p in
      if dotIndex > sepIndex \<and>
         list_ex (\<lambda>c. c \<noteq> CHR ''.'')
           (take (nat (dotIndex - (sepIndex + 1))) (drop (nat (sepIndex + 1)) p))
      then (take (nat dotIndex) p, drop (nat dotIndex) p)
      else (p, []))"

definition path_join :: "string \<Rightarrow> string \<Rightarrow> string" where
  \<comment> \<open>\<^verbatim>\<open>os.path.join(a, b)\<close> for two components\<close>
  "path_join a b =
     (if startswith b ''/'' then b
      else if a = [] \<or> endswith a ''/'' then a @ b
      else a @ ''/'' @ b)"

section \<open>The opaque capabilities\<close>

text \<open>
  Rasterisation, the image transforms and the recognition engine are third-party calls.
  Each is a parameter that either returns or raises; what is raised is kept as the
  message \<^verbatim>\<open>str(e)\<close>, the only part of an exception the pipeline reads. Opening the
  output file and writing to it can fail as well; a failed write reports how many
  characters reached the file. Log calls carry no state the pipeline reads and are
  left out.
\<close>

record 'img env =
  convert_from_path :: "string \<Rightarrow> int \<Rightarrow> string + 'img list"
  preprocess_image :: "'img \<Rightarrow> string + 'img"
  fromarray :: "'img \<Rightarrow> string + 'img"
  image_to_string :: "'img \<Rightarrow> string + string"
  open_w :: "string \<Rightarrow> string option"
  write_text :: "string \<Rightarrow> string \<Rightarrow> (nat \<times> string) option"
  makedirs :: "string \<Rightarrow> string option"

section \<open>PageRecognizer: \<^verbatim>\<open>extract_text_from_image\<close>\<close>

definition extract_text_from_image :: "'img env \<Rightarrow> 'img \<Rightarrow> string" where
  "extract_text_from_image e img =
     (case preprocess_image e img of
        Inl err \<Rightarrow> []
      | Inr processed_image \<Rightarrow>
          (case fromarray e processed_image of
             Inl err \<Rightarrow> []
           | Inr pil_image \<Rightarrow>
               (case image_to_string e pil_image of
                  Inl err \<Rightarrow> []
                | Inr text \<Rightarrow> strip text)))"

section \<open>The filesystem and the effects on it\<close>

text \<open>
  The world is what the pipeline reads and changes outside its own variables: the files
  that exist (path to contents; \<^verbatim>\<open>os.path.exists\<close> is membership) and the order of the
  external calls made so far.
\<close>

datatype event = Rasterize string int | Recognize string nat | OpenWrite string

record world =
  files :: "string \<rightharpoonup> string"
  trace :: "event list"

definition log_event :: "event \<Rightarrow> world \<Rightarrow> world" where
  "log_event ev w = w\<lparr>trace := trace w @ [ev]\<rparr>"

section \<open>DocumentConverter: \<^verbatim>\<open>process_single_pdf\<close>\<close>

type_synonym outcome = "bool \<times> string \<times> string"

definition output_path :: "string \<Rightarrow> string \<Rightarrow> string" where
  \<comment> \<open>lines 76-77: \<^verbatim>\<open>base_name\<close> and \<^verbatim>\<open>output_file\<close>\<close>
  "output_path pdf_path output_dir =
     path_join output_dir (fst (path_splitext (path_basename pdf_path)) @ ''.txt'')"

definition page_marker :: "nat \<Rightarrow> string" where
  \<comment> \<open>the f-string \<^verbatim>\<open>--- Page {page_num} ---\<close>\<close>
  "page_marker page_num = ''--- Page '' @ str_nat page_num @ '' ---''"

fun ocr_pages ::
  "'img env \<Rightarrow> string \<Rightarrow> nat \<Rightarrow> 'img list \<Rightarrow> world \<times> string list \<Rightarrow> world \<times> string list"
where
  \<comment> \<open>lines 98-108: the loop over \<^verbatim>\<open>enumerate(images, 1)\<close>, with \<^verbatim>\<open>all_text\<close> as accumulator\<close>
  "ocr_pages e pdf_path page_num [] (w, all_text) = (w, all_text)"
| "ocr_pages e pdf_path page_num (img # images) (w, all_text) =
     (let page_text = extract_text_from_image e img;
          w' = log_event (Recognize pdf_path page_num) w
      in if page_text \<noteq> []
         then ocr_pages e pdf_path (page_num + 1) images
                (w', all_text @ [page_marker page_num @ ''\<newline>'' @ page_text @ ''\<newline>''])
         else ocr_pages e pdf_path (page_num + 1) images
                (w', all_text @ [page_marker page_num @ ''\<newline>[No text extracted]\<newline>'']))"

definition read_pdf ::
  "'img env \<Rightarrow> world \<Rightarrow> string \<Rightarrow> string \<Rightarrow> int \<Rightarrow> world \<times> (outcome + string \<times> string)"
where
  \<comment> \<open>lines 74-115, up to the decision to write: \<open>Inl\<close> is an early return,
      \<open>Inr (output_file, full_text)\<close> goes on to the write\<close>
  "read_pdf e w pdf_path output_dir dpi =
     (let output_file = output_path pdf_path output_dir in
      if files w output_file \<noteq> None then (w, Inl (True, pdf_path, output_file))
      else
        (let w1 = log_event (Rasterize pdf_path dpi) w in
         case convert_from_path e pdf_path dpi of
           Inl err \<Rightarrow> (w1, Inl (False, pdf_path, err))
         | Inr images \<Rightarrow>
             if images = [] then (w1, Inl (False, pdf_path, ''No images extracted''))
             else
               (let (w2, all_text) = ocr_pages e pdf_path 1 images (w1, []);
                    full_text = str_join ''\<newline>'' all_text
                in if strip full_text = []
                   then (w2, Inl (False, pdf_path, ''No text extracted''))
                   else (w2, Inr (output_file, full_text)))))"

definition write_pdf ::
  "'img env \<Rightarrow> world \<Rightarrow> string \<Rightarrow> string \<Rightarrow> string \<Rightarrow> world \<times> outcome"
where
  \<comment> \<open>lines 117-126: \<^verbatim>\<open>open(output_file, 'w')\<close> creates or truncates the file, then the text
      is written; an error of either is caught by the handler of line 124\<close>
  "write_pdf e w pdf_path output_file full_text =
     (let w1 = log_event (OpenWrite output_file) w in
      case open_w e output_file of
        Some err \<Rightarrow> (w1, (False, pdf_path, err))
      | None \<Rightarrow>
          (let w2 = w1\<lparr>files := (files w1)(output_file \<mapsto> [])\<rparr> in
           case write_text e output_file full_text of
             Some (n, err) \<Rightarrow>
               (w2\<lparr>files := (files w2)(output_file \<mapsto> take n full_text)\<rparr>, (False, pdf_path, err))
           | None \<Rightarrow>
               (w2\<lparr>files := (files w2)(output_file \<mapsto> full_text)\<rparr>, (True, pdf_path, output_file))))"

definition process_single_pdf ::
  "'img env \<Rightarrow> world \<Rightarrow> string \<Rightarrow> string \<Rightarrow> int \<Rightarrow> world \<times> outcome"
where
  "process_single_pdf e w pdf_path output_dir dpi =
     (case read_pdf e w pdf_path output_dir dpi of
        (w', Inl r) \<Rightarrow> (w', r)
      | (w', Inr (output_file, full_text)) \<Rightarrow> write_pdf e w' pdf_path output_file full_text)"

section \<open>CorpusWalker: the discovery loop of \<^verbatim>\<open>ocr_pdfs_to_text\<close>\<close>

text \<open>
  The input tree as \<^verbatim>\<open>os.walk\<close> reads it: a directory is the list of its entries, in
  listing order. A root that does not exist, or is no directory, has no listing at all,
  and \<^verbatim>\<open>os.walk\<close> then yields nothing (its \<^verbatim>\<open>onerror\<close> is unset).
\<close>

datatype node = File string | Dir string "node list"

fun file_names :: "node list \<Rightarrow> string list" where
  "file_names [] = []"
| "file_names (File n # es) = n # file_names es"
| "file_names (Dir n sub # es) = file_names es"

fun dir_names :: "node list \<Rightarrow> string list" where
  "dir_names [] = []"
| "dir_names (File n # es) = dir_names es"
| "dir_names (Dir n sub # es) = n # dir_names es"

fun walk :: "string \<Rightarrow> node list \<Rightarrow> (string \<times> string list \<times> string list) list"
  and walk_dirs :: "string \<Rightarrow> node list \<Rightarrow> (string \<times> string list \<times> string list) list"
where
  \<comment> \<open>\<^verbatim>\<open>os.walk(root)\<close>, top-down: the directory itself, then each subdirectory in turn\<close>
  "walk root es = (root, dir_names es, file_names es) # walk_dirs root es"
| "walk_dirs root [] = []"
| "walk_dirs root (File n # es) = walk_dirs root es"
| "walk_dirs root (Dir n sub # es) = walk (path_join root n) sub @ walk_dirs root es"

definition os_walk :: "string \<Rightarrow> node list option \<Rightarrow> (string \<times> string list \<times> string list) list" where
  "os_walk root tree = (case tree of None \<Rightarrow> [] | Some es \<Rightarrow> walk root es)"

definition find_pdfs :: "string \<Rightarrow> node list option \<Rightarrow> string list" where
  \<comment> \<open>lines 150-154\<close>
  "find_pdfs input_folder tree =
     concat (map (\<lambda>(root, dirs, fs).
                    map (path_join root) (filter (\<lambda>file. endswith (lower file) ''.pdf'') fs))
                 (os_walk input_folder tree))"

section \<open>BatchOrchestrator: \<^verbatim>\<open>ocr_pdfs_to_text\<close>\<close>

record stats =
  total :: nat
  successful :: nat
  failed :: nat
  errors :: "string list"

definition tally :: "outcome \<Rightarrow> stats \<Rightarrow> stats" where
  \<comment> \<open>lines 186-192 and 202-208: one outcome folded into the statistics\<close>
  "tally r st =
     (case r of (success, processed_pdf, result) \<Rightarrow>
        if success then st\<lparr>successful := successful st + 1\<rparr>
        else st\<lparr>failed := failed st + 1,
                errors := errors st @ [processed_pdf @ '': '' @ result]\<rparr>)"

fun run_sequential ::
  "'img env \<Rightarrow> string \<Rightarrow> int \<Rightarrow> string list \<Rightarrow> world \<times> stats \<Rightarrow> world \<times> stats"
where
  \<comment> \<open>lines 200-208\<close>
  "run_sequential e output_folder dpi [] (w, st) = (w, st)"
| "run_sequential e output_folder dpi (pdf_path # rest) (w, st) =
     (case process_single_pdf e w pdf_path output_folder dpi of
        (w', r) \<Rightarrow> run_sequential e output_folder dpi rest (w', tally r st))"

subsection \<open>The worker pool\<close>

text \<open>
  \<^verbatim>\<open>ThreadPoolExecutor\<close> runs \<^verbatim>\<open>process_single_pdf\<close> for every document, at most
  \<^verbatim>\<open>max_workers\<close> at a time, and \<^verbatim>\<open>as_completed\<close> hands the outcomes to the main thread in the
  order the calls return; only the main thread touches the statistics. The calls share
  the filesystem. A call meets it at two points, the existence test of line 80 and the
  write of lines 118-119, so a run of the pool is an interleaving of these two steps of
  its tasks. The interleaving is a parameter: a list of task indices, each occurrence
  letting that task take its next step (an occurrence that cannot act is passed over).
  When the list is used up, the tasks in flight finish and the remaining ones run one
  after the other, as leaving the \<^verbatim>\<open>with\<close> block waits for all of them.
  \<^verbatim>\<open>process_single_pdf\<close> catches every exception itself, so \<^verbatim>\<open>future.result()\<close> does
  not raise and the handler of lines 193-196 is never entered.
\<close>

datatype task = Queued | Writing string string | Finished

record pool =
  pworld :: world
  tasks :: "task list"
  completed :: "outcome list"

definition running :: "task list \<Rightarrow> nat" where
  "running ts = length (filter (\<lambda>t. case t of Writing f txt \<Rightarrow> True | _ \<Rightarrow> False) ts)"

definition pool_advance ::
  "'img env \<Rightarrow> string \<Rightarrow> int \<Rightarrow> string list \<Rightarrow> nat \<Rightarrow> pool \<Rightarrow> pool"
where
  "pool_advance e output_folder dpi pdf_files i p =
     (if i < length pdf_files \<and> i < length (tasks p) then
        (case tasks p ! i of
           Queued \<Rightarrow>
             (case read_pdf e (pworld p) (pdf_files ! i) output_folder dpi of
                (w', Inl r) \<Rightarrow>
                  \<lparr>pworld = w', tasks = (tasks p)[i := Finished], completed = completed p @ [r]\<rparr>
              | (w', Inr (output_file, full_text)) \<Rightarrow>
                  \<lparr>pworld = w', tasks = (tasks p)[i := Writing output_file full_text],
                   completed = completed p\<rparr>)
         | Writing output_file full_text \<Rightarrow>
             (case write_pdf e (pworld p) (pdf_files ! i) output_file full_text of
                (w', r) \<Rightarrow>
                  \<lparr>pworld = w', tasks = (tasks p)[i := Finished], completed = completed p @ [r]\<rparr>)
         | Finished \<Rightarrow> p)
      else p)"

definition pool_step ::
  "'img env \<Rightarrow> string \<Rightarrow> int \<Rightarrow> nat \<Rightarrow> string list \<Rightarrow> nat \<Rightarrow> pool \<Rightarrow> pool"
where
  \<comment> \<open>a queued task starts only when a worker is free\<close>
  "pool_step e output_folder dpi max_workers pdf_files i p =
     (if i < length (tasks p) \<and> tasks p ! i = Queued \<and> max_workers \<le> running (tasks p)
      then p else pool_advance e output_folder dpi pdf_files i p)"

definition pool_drain ::
  "'img env \<Rightarrow> string \<Rightarrow> int \<Rightarrow> string list \<Rightarrow> nat \<Rightarrow> pool \<Rightarrow> pool"
where
  \<comment> \<open>a task in flight finishes\<close>
  "pool_drain e output_folder dpi pdf_files i p =
     (if i < length (tasks p) \<and> tasks p ! i \<noteq> Queued
      then pool_advance e output_folder dpi pdf_files i p else p)"

definition pool_finish ::
  "'img env \<Rightarrow> string \<Rightarrow> int \<Rightarrow> string list \<Rightarrow> nat \<Rightarrow> pool \<Rightarrow> pool"
where
  \<comment> \<open>a task runs to its end\<close>
  "pool_finish e output_folder dpi pdf_files i p =
     pool_advance e output_folder dpi pdf_files i (pool_advance e output_folder dpi pdf_files i p)"

definition pool_run ::
  "'img env \<Rightarrow> string \<Rightarrow> int \<Rightarrow> nat \<Rightarrow> nat list \<Rightarrow> string list \<Rightarrow> world \<Rightarrow> pool"
where
  \<comment> \<open>lines 174-179 and the end of the \<^verbatim>\<open>with\<close> block: all tasks submitted, the interleaving
      played, every task brought to its end\<close>
  "pool_run e output_folder dpi max_workers sched pdf_files w =
     (let n = length pdf_files;
          p0 = \<lparr>pworld = w, tasks = replicate n Queued, completed = []\<rparr>;
          p1 = fold (pool_step e output_folder dpi max_workers pdf_files) sched p0;
          p2 = fold (pool_drain e output_folder dpi pdf_files) [0..<n] p1
      in fold (pool_finish e output_folder dpi pdf_files) [0..<n] p2)"

definition run_parallel ::
  "'img env \<Rightarrow> string \<Rightarrow> int \<Rightarrow> nat \<Rightarrow> nat list \<Rightarrow> string list \<Rightarrow> world \<times> stats \<Rightarrow> world \<times> stats"
where
  \<comment> \<open>lines 174-196: the outcomes are folded into the statistics in the order of completion\<close>
  "run_parallel e output_folder dpi max_workers sched pdf_files ws =
     (case ws of (w, st) \<Rightarrow>
        (let p = pool_run e output_folder dpi max_workers sched pdf_files w
         in (pworld p, fold tally (completed p) st)))"

datatype exn = OSError string | NameError string

definition ocr_pdfs_to_text ::
  "'img env \<Rightarrow> world \<Rightarrow> node list option \<Rightarrow> nat list \<Rightarrow>
     string \<Rightarrow> string \<Rightarrow> int \<Rightarrow> int option \<Rightarrow> world \<times> (exn + stats)"
where
  \<comment> \<open>lines 128-222. \<open>tree\<close> is the listing of \<open>input_folder\<close>, \<open>sched\<close> the interleaving
      of the pool (unused by the sequential branch). \<^verbatim>\<open>os.makedirs\<close> is outside any
      handler: its error leaves the function.\<close>
  "ocr_pdfs_to_text e w tree sched input_folder output_folder dpi max_workers =
     (case makedirs e output_folder of
        Some err \<Rightarrow> (w, Inl (OSError err))
      | None \<Rightarrow>
          (let pdf_files = find_pdfs input_folder tree in
           if pdf_files = [] then (w, Inr \<lparr>total = 0, successful = 0, failed = 0, errors = []\<rparr>)
           else
             (let st = \<lparr>total = length pdf_files, successful = 0, failed = 0, errors = []\<rparr> in
              if (case max_workers of None \<Rightarrow> False | Some k \<Rightarrow> k \<noteq> 0 \<and> k > 1)
              then (case run_parallel e output_folder dpi (nat (the max_workers)) sched pdf_files (w, st) of
                      (w', st') \<Rightarrow> (w', Inr st'))
              else (case run_sequential e output_folder dpi pdf_files (w, st) of
                      (w', st') \<Rightarrow> (w', Inr st')))))"

section \<open>\<^verbatim>\<open>batch_ocr_processing\<close>\<close>

text \<open>
  A name that a function reads and never assigns is looked up in the module's globals
  and then among the builtins; when neither binds it, the read raises \<^verbatim>\<open>NameError\<close>.
  \<open>module_globals\<close> lists what \<^verbatim>\<open>src/ocr.py\<close> binds at module level: its imports, its
  functions and the three variables of its main block. No builtin is called
  \<^verbatim>\<open>logger\<close>.
\<close>

definition module_globals :: "string list" where
  "module_globals =
     [''os'', ''cv2'', ''np'', ''Image'', ''pytesseract'', ''convert_from_path'', ''logging'',
      ''ThreadPoolExecutor'', ''as_completed'', ''setup_ocr_logging'', ''preprocess_image'',
      ''extract_text_from_image'', ''process_single_pdf'', ''ocr_pdfs_to_text'',
      ''batch_ocr_processing'', ''input_dir'', ''output_dir'', ''stats'']"

definition load_global :: "string \<Rightarrow> exn + unit" where
  "load_global name = (if name \<in> set module_globals then Inr () else Inl (NameError name))"

fun batch_ocr_processing_loop ::
  "'img env \<Rightarrow> node list option \<Rightarrow> (int \<Rightarrow> nat list) \<Rightarrow> string \<Rightarrow> string \<Rightarrow> int list \<Rightarrow>
     world \<times> (int \<rightharpoonup> stats) \<Rightarrow> world \<times> (exn + (int \<rightharpoonup> stats))"
where
  \<comment> \<open>lines 231-236\<close>
  "batch_ocr_processing_loop e tree sched input_folder output_base_folder [] (w, results) =
     (w, Inr results)"
| "batch_ocr_processing_loop e tree sched input_folder output_base_folder (dpi # rest) (w, results) =
     (let output_folder = path_join output_base_folder (''dpi_'' @ str_int dpi) in
      case load_global ''logger'' of
        Inl ex \<Rightarrow> (w, Inl ex)
      | Inr logger \<Rightarrow>
          (case ocr_pdfs_to_text e w tree (sched dpi) input_folder output_folder dpi (Some 2) of
             (w', Inl ex) \<Rightarrow> (w', Inl ex)
           | (w', Inr st) \<Rightarrow>
               batch_ocr_processing_loop e tree sched input_folder output_base_folder rest
                 (w', results(dpi \<mapsto> st))))"

definition batch_ocr_processing ::
  "'img env \<Rightarrow> world \<Rightarrow> node list option \<Rightarrow> (int \<Rightarrow> nat list) \<Rightarrow> string \<Rightarrow> string \<Rightarrow> int list \<Rightarrow>
     world \<times> (exn + (int \<rightharpoonup> stats))"
where
  \<comment> \<open>lines 225-238\<close>
  "batch_ocr_processing e w tree sched input_folder output_base_folder dpi_list =
     batch_ocr_processing_loop e tree sched input_folder output_base_folder dpi_list (w, Map.empty)"

section \<open>Notions of the specification\<close>

definition trimmed :: "string \<Rightarrow> bool" where
  \<comment> \<open>no white space at either end\<close>
  "trimmed s = (s = [] \<or> (\<not> isspace (hd s) \<and> \<not> isspace (last s)))"

definition page_body :: "'img env \<Rightarrow> 'img \<Rightarrow> string" where
  \<comment> \<open>what stands under a page's marker: the recognised text, or the placeholder\<close>
  "page_body e img =
     (if extract_text_from_image e img = [] then ''[No text extracted]''
      else extract_text_from_image e img)"

definition page_block :: "'img env \<Rightarrow> nat \<times> 'img \<Rightarrow> string" where
  "page_block e ki = page_marker (fst ki) @ ''\<newline>'' @ page_body e (snd ki) @ ''\<newline>''"

definition artifact :: "'img env \<Rightarrow> 'img list \<Rightarrow> string" where
  \<comment> \<open>the document artifact: one block per page, numbered from 1, blank line between\<close>
  "artifact e images =
     str_join ''\<newline>'' (map (page_block e) (zip [1..<Suc (length images)] images))"

inductive file_at :: "string \<Rightarrow> node list \<Rightarrow> string \<Rightarrow> string \<Rightarrow> bool" where
  \<comment> \<open>\<open>file_at root es dir name\<close>: the tree with listing \<open>es\<close> at \<open>root\<close> has a file
      \<open>name\<close> in its directory \<open>dir\<close>\<close>
  here: "File name \<in> set es \<Longrightarrow> file_at root es root name"
| below: "Dir d sub \<in> set es \<Longrightarrow> file_at (path_join root d) sub dir name \<Longrightarrow>
          file_at root es dir name"

definition is_pdf_name :: "string \<Rightarrow> bool" where
  \<comment> \<open>the name ends in \<^verbatim>\<open>.pdf\<close>, whatever the case of its letters\<close>
  "is_pdf_name name = endswith (lower name) ''.pdf''"

fun count_pdfs :: "node list \<Rightarrow> nat" where
  \<comment> \<open>how many files of the tree have such a name\<close>
  "count_pdfs [] = 0"
| "count_pdfs (File name # es) = (if is_pdf_name name then 1 else 0) + count_pdfs es"
| "count_pdfs (Dir d sub # es) = count_pdfs sub + count_pdfs es"

definition pdfs_of :: "(string \<times> string list \<times> string list) list \<Rightarrow> string list" where
  \<comment> \<open>the body of the discovery loop, over what the walk yields\<close>
  "pdfs_of triples =
     concat (map (\<lambda>(root, dirs, fs).
                    map (path_join root) (filter (\<lambda>file. endswith (lower file) ''.pdf'') fs))
                 triples)"

definition zero_stats :: stats where
  "zero_stats = \<lparr>total = 0, successful = 0, failed = 0, errors = []\<rparr>"

section \<open>Auxiliary notions\<close>

fun seq_run :: "'img env \<Rightarrow> string \<Rightarrow> int \<Rightarrow> string list \<Rightarrow> world \<Rightarrow> world \<times> outcome list" where
  \<comment> \<open>the sequential loop, keeping the outcomes instead of folding them\<close>
  "seq_run e out dpi [] w = (w, [])"
| "seq_run e out dpi (p # ps) w =
     (case process_single_pdf e w p out dpi of
        (w', r) \<Rightarrow> (case seq_run e out dpi ps w' of (w'', rs) \<Rightarrow> (w'', r # rs)))"

definition counted :: "nat \<Rightarrow> pool \<Rightarrow> bool" where
  \<comment> \<open>one outcome has been collected for each finished task\<close>
  "counted n p \<longleftrightarrow> length (tasks p) = n
     \<and> length (completed p) = card {i. i < n \<and> tasks p ! i = Finished}"

definition initial_stats :: "nat \<Rightarrow> stats" where
  \<comment> \<open>lines 163-168\<close>
  "initial_stats n = \<lparr>total = n, successful = 0, failed = 0, errors = []\<rparr>"

definition stuck :: "'img env \<Rightarrow> string \<Rightarrow> int \<Rightarrow> string \<Rightarrow> bool" where
  \<comment> \<open>a document that can never get an artifact: it cannot be rasterised into pages, or
      its output file cannot be opened\<close>
  "stuck e out dpi p =
     (case convert_from_path e p dpi of
        Inl err \<Rightarrow> True
      | Inr imgs \<Rightarrow> imgs = [] \<or> open_w e (output_path p out) \<noteq> None)"

section \<open>A concrete corpus\<close>

text \<open>
  Page images are natural numbers here. Image 7 cannot be preprocessed, image 8 makes
  the engine fail, image 1 is a blank page, the others carry text.
\<close>

definition empty_world :: world where
  "empty_world = \<lparr>files = Map.empty, trace = []\<rparr>"

definition demo_env :: "nat env" where
  "demo_env =
     \<lparr>convert_from_path = (\<lambda>p d.
          if p = ''in/bad.pdf'' then Inl ''Unable to get page count''
          else if p = ''in/zero.pdf'' then Inr []
          else if p = ''in/blank.pdf'' then Inr [1]
          else if p = ''in/sub/a.pdf'' then Inr [2]
          else Inr [0, 1, 7]),
      preprocess_image = (\<lambda>i. if i = 7 then Inl ''bad image'' else Inr i),
      fromarray = Inr,
      image_to_string = (\<lambda>i.
          if i = 8 then Inl ''engine failure''
          else if i = 1 then Inr '' ''
          else if i = 2 then Inr ''--- Page 1 ---''
          else Inr ''  Hello  ''),
      open_w = (\<lambda>f. if f = ''out/locked.txt'' then Some ''Permission denied'' else None),
      write_text = (\<lambda>f t. if f = ''out/full.txt'' then Some (5, ''No space left on device'') else None),
      makedirs = (\<lambda>d. if d = ''/proc/out'' then Some ''Permission denied'' else None)\<rparr>"

definition demo_tree :: "node list" where
  "demo_tree =
     [File ''bad.pdf'', File ''notes.txt'',
      Dir ''sub'' [File ''a.pdf'', File ''B.PDF'', Dir ''empty'' []],
      File ''zero.pdf'']"

section \<open>Verified properties\<close>

subsection \<open>White space\<close>

lemma lstrip_decomp: "s = takeWhile isspace s @ lstrip s"
  by (simp add: lstrip_def)

lemma rstrip_decomp: "s = rstrip s @ rev (takeWhile isspace (rev s))"
  unfolding rstrip_def by (metis rev_append rev_rev_ident takeWhile_dropWhile_id)

lemma strip_decomp:
  "\<exists>a b. s = a @ strip s @ b \<and> list_all isspace a \<and> list_all isspace b"
proof -
  let ?a = "takeWhile isspace s"
  let ?b = "rev (takeWhile isspace (rev (lstrip s)))"
  have "lstrip s = strip s @ ?b" unfolding strip_def by (rule rstrip_decomp)
  then have "s = ?a @ strip s @ ?b" using lstrip_decomp [of s] by simp
  moreover have "list_all isspace ?a" by (simp add: list_all_iff) (meson set_takeWhileD)
  moreover have "list_all isspace ?b" by (simp add: list_all_iff) (meson set_takeWhileD)
  ultimately show ?thesis by blast
qed

lemma rstrip_last: "rstrip t \<noteq> [] \<Longrightarrow> \<not> isspace (last (rstrip t))"
  by (simp add: rstrip_def last_rev hd_dropWhile)

lemma rstrip_hd: "rstrip t \<noteq> [] \<Longrightarrow> hd (rstrip t) = hd t"
  using rstrip_decomp [of t] by (metis hd_append2)

lemma lstrip_hd: "lstrip s \<noteq> [] \<Longrightarrow> \<not> isspace (hd (lstrip s))"
  by (simp add: lstrip_def hd_dropWhile)

lemma rstrip_Nil: "rstrip [] = []"
  by (simp add: rstrip_def)

lemma strip_trimmed: "trimmed (strip s)"
proof (cases "strip s = []")
  case True
  then show ?thesis by (simp add: trimmed_def)
next
  case False
  then have ne: "lstrip s \<noteq> []" by (auto simp: strip_def rstrip_Nil)
  have "hd (strip s) = hd (lstrip s)" using False unfolding strip_def by (rule rstrip_hd)
  with lstrip_hd [OF ne] have "\<not> isspace (hd (strip s))" by simp
  moreover have "\<not> isspace (last (strip s))" using False unfolding strip_def by (rule rstrip_last)
  ultimately show ?thesis by (simp add: trimmed_def)
qed

subsection \<open>The page recognizer\<close>

text \<open>
  C7. \<^verbatim>\<open>extract_text_from_image\<close> never raises: when the preprocessing, the conversion
  back to an image or the engine fails, it returns the empty string; when all three
  succeed, it returns the engine's text with the white space at both ends removed, and
  nothing but white space removed.
\<close>

theorem extract_text_from_image_never_raises_trimmed:
  "(preprocess_image e img = Inl err \<longrightarrow> extract_text_from_image e img = [])
   \<and> (preprocess_image e img = Inr a \<and> fromarray e a = Inl err
        \<longrightarrow> extract_text_from_image e img = [])
   \<and> (preprocess_image e img = Inr a \<and> fromarray e a = Inr b \<and> image_to_string e b = Inl err
        \<longrightarrow> extract_text_from_image e img = [])
   \<and> (preprocess_image e img = Inr a \<and> fromarray e a = Inr b \<and> image_to_string e b = Inr raw
        \<longrightarrow> extract_text_from_image e img = strip raw \<and> trimmed (strip raw)
            \<and> (\<exists>l r. raw = l @ strip raw @ r \<and> list_all isspace l \<and> list_all isspace r))"
  using strip_trimmed [of raw] strip_decomp [of raw]
  by (simp add: extract_text_from_image_def)

theorem extract_text_from_image_witness:
  "preprocess_image demo_env 7 = Inl ''bad image''
   \<and> extract_text_from_image demo_env 7 = []
   \<and> image_to_string demo_env 8 = Inl ''engine failure''
   \<and> extract_text_from_image demo_env 8 = []
   \<and> image_to_string demo_env 0 = Inr ''  Hello  ''
   \<and> extract_text_from_image demo_env 0 = strip ''  Hello  ''
   \<and> trimmed (strip ''  Hello  '')"
  using extract_text_from_image_never_raises_trimmed
          [where e = demo_env and img = 7 and err = "''bad image''"]
        extract_text_from_image_never_raises_trimmed
          [where e = demo_env and img = 8 and a = 8 and b = 8 and err = "''engine failure''"]
        extract_text_from_image_never_raises_trimmed
          [where e = demo_env and img = 0 and a = 0 and b = 0 and raw = "''  Hello  ''"]
  by (simp add: demo_env_def)

subsection \<open>The document converter, step by step\<close>

lemma log_event_files [simp]: "files (log_event ev w) = files w"
  by (simp add: log_event_def)

lemma log_event_trace [simp]: "trace (log_event ev w) = trace w @ [ev]"
  by (simp add: log_event_def)

lemma upt_add_Suc: "[n..<n + Suc k] = n # [Suc n..<Suc n + k]"
  by (simp add: upt_conv_Cons del: upt_Suc)

lemma ocr_pages_text:
  "snd (ocr_pages e p n imgs (w, acc)) = acc @ map (page_block e) (zip [n..<n + length imgs] imgs)"
proof (induction imgs arbitrary: n w acc)
  case Nil
  then show ?case by simp
next
  case (Cons img imgs)
  have z: "zip [n..<n + length (img # imgs)] (img # imgs)
           = (n, img) # zip [Suc n..<Suc n + length imgs] imgs"
    using upt_add_Suc [of n "length imgs"] by (simp del: upt_Suc)
  show ?case
    by (simp only: z) (simp add: Cons.IH Let_def page_block_def page_body_def del: upt_Suc)
qed

lemma ocr_pages_files: "files (fst (ocr_pages e p n imgs (w, acc))) = files w"
  by (induction imgs arbitrary: n w acc) (simp_all add: Let_def)

lemma ocr_pages_trace:
  "trace (fst (ocr_pages e p n imgs (w, acc))) = trace w @ map (Recognize p) [n..<n + length imgs]"
proof (induction imgs arbitrary: n w acc)
  case Nil
  then show ?case by simp
next
  case (Cons img imgs)
  have "[n..<n + length (img # imgs)] = n # [Suc n..<Suc n + length imgs]"
    using upt_add_Suc [of n "length imgs"] by (simp del: upt_Suc)
  then show ?case by (simp add: Cons.IH Let_def del: upt_Suc)
qed

lemma strip_Nil_iff: "strip s = [] \<longleftrightarrow> list_all isspace s"
proof -
  have "strip s = [] \<longleftrightarrow> dropWhile isspace (rev (dropWhile isspace s)) = []"
    by (simp add: strip_def rstrip_def lstrip_def)
  also have "\<dots> \<longleftrightarrow> (\<forall>c \<in> set (dropWhile isspace s). isspace c)"
    by (simp add: dropWhile_eq_Nil_conv)
  also have "\<dots> \<longleftrightarrow> dropWhile isspace s = []"
    by (metis dropWhile_eq_Nil_conv hd_dropWhile list.set_sel(1) empty_iff list.set(1))
  also have "\<dots> \<longleftrightarrow> list_all isspace s"
    by (simp add: dropWhile_eq_Nil_conv list_all_iff)
  finally show ?thesis .
qed

lemma not_isspace_dash: "\<not> isspace CHR ''-''"
  by (simp add: isspace_def)

lemma str_join_Cons_set: "set x \<subseteq> set (str_join sep (x # xs))"
  by (cases xs) auto

lemma page_block_dash: "CHR ''-'' \<in> set (page_block e ki)"
  by (simp add: page_block_def page_marker_def)

lemma artifact_not_blank: "images \<noteq> [] \<Longrightarrow> strip (artifact e images) \<noteq> []"
proof -
  assume "images \<noteq> []"
  then have "zip [1..<Suc (length images)] images \<noteq> []"
    by (cases images) (simp_all del: upt_Suc)
  then obtain z zs where "zip [1..<Suc (length images)] images = z # zs"
    by (cases "zip [1..<Suc (length images)] images") auto
  then have "artifact e images = str_join ''\<newline>'' (page_block e z # map (page_block e) zs)"
    by (simp add: artifact_def del: upt_Suc)
  then have "CHR ''-'' \<in> set (artifact e images)"
    using str_join_Cons_set page_block_dash by (metis subsetD)
  then show ?thesis
    using not_isspace_dash by (auto simp: strip_Nil_iff list_all_iff)
qed


lemma read_pdf_exists:
  "files w (output_path p out) \<noteq> None \<Longrightarrow>
   read_pdf e w p out dpi = (w, Inl (True, p, output_path p out))"
  by (simp add: read_pdf_def)

lemma read_pdf_raise:
  "files w (output_path p out) = None \<Longrightarrow> convert_from_path e p dpi = Inl err \<Longrightarrow>
   read_pdf e w p out dpi = (log_event (Rasterize p dpi) w, Inl (False, p, err))"
  by (simp add: read_pdf_def)

lemma read_pdf_zero:
  "files w (output_path p out) = None \<Longrightarrow> convert_from_path e p dpi = Inr [] \<Longrightarrow>
   read_pdf e w p out dpi = (log_event (Rasterize p dpi) w, Inl (False, p, ''No images extracted''))"
  by (simp add: read_pdf_def)

lemma read_pdf_pages:
  assumes "files w (output_path p out) = None" "convert_from_path e p dpi = Inr imgs" "imgs \<noteq> []"
  shows "read_pdf e w p out dpi =
           (fst (ocr_pages e p 1 imgs (log_event (Rasterize p dpi) w, [])),
            Inr (output_path p out, artifact e imgs))"
proof -
  let ?r = "ocr_pages e p 1 imgs (log_event (Rasterize p dpi) w, [])"
  have t: "str_join ''\<newline>'' (snd ?r) = artifact e imgs"
    by (simp add: ocr_pages_text artifact_def del: upt_Suc)
  have "strip (str_join ''\<newline>'' (snd ?r)) \<noteq> []"
    unfolding t using assms(3) by (rule artifact_not_blank)
  then show ?thesis
    using assms t by (simp add: read_pdf_def Let_def split_beta del: upt_Suc)
qed

lemma read_pdf_files: "files (fst (read_pdf e w p out dpi)) = files w"
  by (simp add: read_pdf_def Let_def split_beta ocr_pages_files split: sum.splits)

lemma read_pdf_Inr:
  "read_pdf e w p out dpi = (w', Inr (f, t)) \<Longrightarrow>
   f = output_path p out \<and> files w f = None \<and> files w' = files w
   \<and> (\<exists>imgs. convert_from_path e p dpi = Inr imgs \<and> imgs \<noteq> [] \<and> t = artifact e imgs)"
proof -
  assume a: "read_pdf e w p out dpi = (w', Inr (f, t))"
  have fw: "files w' = files w" using read_pdf_files [of e w p out dpi] a by simp
  have ne: "files w (output_path p out) = None"
    using a read_pdf_exists [of w p out e dpi] by (cases "files w (output_path p out)") auto
  show ?thesis
  proof (cases "convert_from_path e p dpi")
    case (Inl err)
    then show ?thesis using a read_pdf_raise [OF ne Inl] by simp
  next
    case (Inr imgs)
    show ?thesis
    proof (cases "imgs = []")
      case True
      then show ?thesis using a read_pdf_zero [OF ne, of e dpi] Inr by simp
    next
      case False
      then show ?thesis using a read_pdf_pages [OF ne Inr False] Inr fw ne by auto
    qed
  qed
qed

lemma write_pdf_frame:
  "x \<noteq> f \<Longrightarrow> files (fst (write_pdf e w p f t)) x = files w x"
  by (simp add: write_pdf_def Let_def split: option.splits prod.splits)

lemma write_pdf_open_fails:
  "open_w e f = Some err \<Longrightarrow> write_pdf e w p f t = (log_event (OpenWrite f) w, (False, p, err))"
  by (simp add: write_pdf_def Let_def)

lemma write_pdf_ok:
  "open_w e f = None \<Longrightarrow> write_text e f t = None \<Longrightarrow>
   write_pdf e w p f t = ((log_event (OpenWrite f) w)\<lparr>files := (files w)(f \<mapsto> t)\<rparr>, (True, p, f))"
  by (simp add: write_pdf_def Let_def)

lemma write_pdf_partial:
  "open_w e f = None \<Longrightarrow> write_text e f t = Some (n, err) \<Longrightarrow>
   write_pdf e w p f t =
     ((log_event (OpenWrite f) w)\<lparr>files := (files w)(f \<mapsto> take n t)\<rparr>, (False, p, err))"
  by (simp add: write_pdf_def Let_def)

subsection \<open>The document converter, case by case\<close>

lemma process_single_pdf_exists:
  "files w (output_path p out) \<noteq> None \<Longrightarrow>
   process_single_pdf e w p out dpi = (w, (True, p, output_path p out))"
  by (simp add: process_single_pdf_def read_pdf_exists)

lemma process_single_pdf_raise:
  "files w (output_path p out) = None \<Longrightarrow> convert_from_path e p dpi = Inl err \<Longrightarrow>
   process_single_pdf e w p out dpi = (log_event (Rasterize p dpi) w, (False, p, err))"
  by (simp add: process_single_pdf_def read_pdf_raise)

lemma process_single_pdf_zero:
  "files w (output_path p out) = None \<Longrightarrow> convert_from_path e p dpi = Inr [] \<Longrightarrow>
   process_single_pdf e w p out dpi =
     (log_event (Rasterize p dpi) w, (False, p, ''No images extracted''))"
  by (simp add: process_single_pdf_def read_pdf_zero)

lemma process_single_pdf_pages:
  "files w (output_path p out) = None \<Longrightarrow> convert_from_path e p dpi = Inr imgs \<Longrightarrow> imgs \<noteq> [] \<Longrightarrow>
   process_single_pdf e w p out dpi =
     write_pdf e (fst (ocr_pages e p 1 imgs (log_event (Rasterize p dpi) w, []))) p
       (output_path p out) (artifact e imgs)"
  by (simp add: process_single_pdf_def read_pdf_pages)

lemma all_pages_empty_written:
  assumes "files w (output_path p out) = None" "convert_from_path e p dpi = Inr imgs" "imgs \<noteq> []"
    and "open_w e (output_path p out) = None"
    and "write_text e (output_path p out) (artifact e imgs) = None"
  shows "snd (process_single_pdf e w p out dpi) = (True, p, output_path p out)
         \<and> files (fst (process_single_pdf e w p out dpi)) (output_path p out)
             = Some (artifact e imgs)"
  by (simp add: process_single_pdf_pages [OF assms(1-3)] write_pdf_ok [OF assms(4,5)])

subsection \<open>Documents whose pages are all empty\<close>

text \<open>
  C1 (the code departs from it). The claim: a document with at least one page, all of
  whose pages recognise to empty text, gives the failure \<^verbatim>\<open>no text extracted\<close> and writes no
  file. The code: every page, empty or not, adds a block that starts with its marker,
  so the joined text is never blank (\<open>artifact_not_blank\<close>) and the test of line 113 never
  succeeds; such a document is written with one placeholder per page and reported as a
  success (\<open>all_pages_empty_written\<close>). Below, the one-page document \<^verbatim>\<open>in/blank.pdf\<close>, whose
  page recognises to the empty string.
\<close>

theorem blank_document_is_written:
  "convert_from_path demo_env ''in/blank.pdf'' 300 = Inr [1]
   \<and> extract_text_from_image demo_env 1 = []
   \<and> snd (process_single_pdf demo_env empty_world ''in/blank.pdf'' ''out'' 300)
       = (True, ''in/blank.pdf'', ''out/blank.txt'')
   \<and> files (fst (process_single_pdf demo_env empty_world ''in/blank.pdf'' ''out'' 300)) ''out/blank.txt''
       = Some ''--- Page 1 ---\<newline>[No text extracted]\<newline>''"
  by code_simp

subsection \<open>Rasterisation failures\<close>

text \<open>
  C6 (amended). When the output file does not exist yet and rasterisation raises, or
  yields no page, \<^verbatim>\<open>process_single_pdf\<close> returns the failure whose reason is the message of
  the error, or \<^verbatim>\<open>No images extracted\<close> (with a capital N), having changed no file; the
  sequential loop goes on with the remaining documents from the unchanged files, and in
  the pool the task ends without touching any other task. The claim as written names
  the reason \<^verbatim>\<open>no images extracted\<close>; the closed theorem after this one shows the string
  the code returns.
\<close>

theorem rasterization_failure_isolated:
  assumes "files w (output_path p out) = None"
    and "convert_from_path e p dpi = Inl err \<and> reason = err
         \<or> convert_from_path e p dpi = Inr [] \<and> reason = ''No images extracted''"
  shows "process_single_pdf e w p out dpi = (log_event (Rasterize p dpi) w, (False, p, reason))
       \<and> files (fst (process_single_pdf e w p out dpi)) = files w
       \<and> run_sequential e out dpi (p # rest) (w, st)
           = run_sequential e out dpi rest
               (log_event (Rasterize p dpi) w,
                st\<lparr>failed := failed st + 1, errors := errors st @ [p @ '': '' @ reason]\<rparr>)
       \<and> (i < length pdf_files \<and> i < length (tasks pl) \<and> pdf_files ! i = p
            \<and> tasks pl ! i = Queued \<and> pworld pl = w
          \<longrightarrow> pool_advance e out dpi pdf_files i pl
                = \<lparr>pworld = log_event (Rasterize p dpi) w, tasks = (tasks pl)[i := Finished],
                   completed = completed pl @ [(False, p, reason)]\<rparr>)"
proof -
  have r: "read_pdf e w p out dpi = (log_event (Rasterize p dpi) w, Inl (False, p, reason))"
    using assms read_pdf_raise [OF assms(1)] read_pdf_zero [OF assms(1)] by blast
  then have psp: "process_single_pdf e w p out dpi = (log_event (Rasterize p dpi) w, (False, p, reason))"
    by (simp add: process_single_pdf_def)
  show ?thesis
    using r by (simp add: psp tally_def pool_advance_def)
qed

theorem rasterization_failure_literal:
  "snd (process_single_pdf demo_env empty_world ''in/zero.pdf'' ''out'' 300)
     = (False, ''in/zero.pdf'', ''No images extracted'')
   \<and> convert_from_path demo_env ''in/zero.pdf'' 300 = Inr []
   \<and> snd (snd (snd (process_single_pdf demo_env empty_world ''in/zero.pdf'' ''out'' 300)))
       \<noteq> ''no images extracted''"
  by code_simp

theorem rasterization_failure_isolated_witness:
  "files empty_world (output_path ''in/bad.pdf'' ''out'') = None
   \<and> convert_from_path demo_env ''in/bad.pdf'' 300 = Inl ''Unable to get page count''
   \<and> process_single_pdf demo_env empty_world ''in/bad.pdf'' ''out'' 300
       = (log_event (Rasterize ''in/bad.pdf'' 300) empty_world,
          (False, ''in/bad.pdf'', ''Unable to get page count''))
   \<and> convert_from_path demo_env ''in/zero.pdf'' 300 = Inr []
   \<and> process_single_pdf demo_env empty_world ''in/zero.pdf'' ''out'' 300
       = (log_event (Rasterize ''in/zero.pdf'' 300) empty_world,
          (False, ''in/zero.pdf'', ''No images extracted''))
   \<and> pool_advance demo_env ''out'' 300 [''in/sub/a.pdf'', ''in/bad.pdf''] 1
         \<lparr>pworld = empty_world, tasks = [Queued, Queued], completed = []\<rparr>
       = \<lparr>pworld = log_event (Rasterize ''in/bad.pdf'' 300) empty_world,
          tasks = [Queued, Finished],
          completed = [(False, ''in/bad.pdf'', ''Unable to get page count'')]\<rparr>"
proof -
  have h1: "files empty_world (output_path ''in/bad.pdf'' ''out'') = None" by code_simp
  have h2: "convert_from_path demo_env ''in/bad.pdf'' 300 = Inl ''Unable to get page count''"
    by code_simp
  have h3: "files empty_world (output_path ''in/zero.pdf'' ''out'') = None" by code_simp
  have h4: "convert_from_path demo_env ''in/zero.pdf'' 300 = Inr []" by code_simp
  note a = rasterization_failure_isolated
     [where e = demo_env and w = empty_world and p = "''in/bad.pdf''" and out = "''out''"
        and dpi = 300 and err = "''Unable to get page count''"
        and reason = "''Unable to get page count''" and i = 1
        and pdf_files = "[''in/sub/a.pdf'', ''in/bad.pdf'']"
        and pl = "\<lparr>pworld = empty_world, tasks = [Queued, Queued], completed = []\<rparr>"]
  note b = rasterization_failure_isolated
     [where e = demo_env and w = empty_world and p = "''in/zero.pdf''" and out = "''out''"
        and dpi = 300 and reason = "''No images extracted''"]
  show ?thesis using a h1 h2 b h3 h4 by simp
qed


subsection \<open>The write step\<close>

text \<open>
  C2 (amended). The code writes with \<^verbatim>\<open>open(output_file, 'w')\<close> and \<^verbatim>\<open>f.write\<close>, inside the
  handler of line 124; there is no write-then-rename. What holds: the outcome names the
  document; a success is either a skip that changed nothing or a document of at least
  one page whose file now holds exactly the whole artifact; a failure has either left
  every file as it was, or is a failed write, after which the file holds the first
  characters of the artifact that reached it. The closed theorem after this one is a
  document that reports a failure and leaves such a file, against the claim as written.
\<close>

theorem write_step_outcomes:
  assumes "process_single_pdf e w p out dpi = (w', (ok, q, r))"
  shows "q = p
       \<and> (ok \<longrightarrow> r = output_path p out
             \<and> (files w (output_path p out) \<noteq> None \<and> w' = w
                \<or> (\<exists>imgs. convert_from_path e p dpi = Inr imgs \<and> imgs \<noteq> []
                      \<and> files w' = (files w)(output_path p out \<mapsto> artifact e imgs))))
       \<and> (\<not> ok \<longrightarrow> files w' = files w
             \<or> (\<exists>imgs n. convert_from_path e p dpi = Inr imgs \<and> imgs \<noteq> []
                   \<and> open_w e (output_path p out) = None
                   \<and> write_text e (output_path p out) (artifact e imgs) = Some (n, r)
                   \<and> files w' = (files w)(output_path p out \<mapsto> take n (artifact e imgs))))"
proof (cases "files w (output_path p out) = None")
  case False
  then show ?thesis using assms process_single_pdf_exists [of w p out e dpi] by auto
next
  case ne: True
  show ?thesis
  proof (cases "convert_from_path e p dpi")
    case (Inl err)
    then show ?thesis using assms process_single_pdf_raise [OF ne Inl] by auto
  next
    case (Inr imgs)
    show ?thesis
    proof (cases "imgs = []")
      case True
      then show ?thesis using assms process_single_pdf_zero [OF ne, of e dpi] Inr by auto
    next
      case False
      let ?w2 = "fst (ocr_pages e p 1 imgs (log_event (Rasterize p dpi) w, []))"
      have fw2: "files ?w2 = files w" by (simp add: ocr_pages_files)
      have wr: "write_pdf e ?w2 p (output_path p out) (artifact e imgs) = (w', (ok, q, r))"
        using assms process_single_pdf_pages [OF ne Inr False] by simp
      show ?thesis
      proof (cases "open_w e (output_path p out)")
        case (Some err)
        then show ?thesis using wr write_pdf_open_fails [OF Some] fw2 by auto
      next
        case None
        show ?thesis
        proof (cases "write_text e (output_path p out) (artifact e imgs)")
          case wn: None
          then show ?thesis using wr write_pdf_ok [OF None wn] fw2 Inr False by auto
        next
          case (Some nerr)
          then obtain n err where ws: "write_text e (output_path p out) (artifact e imgs) = Some (n, err)"
            by (cases nerr) auto
          show ?thesis using wr write_pdf_partial [OF None ws] fw2 Inr False None ws by auto
        qed
      qed
    qed
  qed
qed

theorem failed_write_leaves_partial_file:
  "snd (process_single_pdf demo_env empty_world ''in/full.pdf'' ''out'' 300)
     = (False, ''in/full.pdf'', ''No space left on device'')
   \<and> files (fst (process_single_pdf demo_env empty_world ''in/full.pdf'' ''out'' 300)) ''out/full.txt''
     = Some ''--- P''"
  by code_simp

theorem write_step_outcomes_witness:
  "process_single_pdf demo_env empty_world ''in/full.pdf'' ''out'' 300
     = (fst (process_single_pdf demo_env empty_world ''in/full.pdf'' ''out'' 300),
        (False, ''in/full.pdf'', ''No space left on device''))
   \<and> (files (fst (process_single_pdf demo_env empty_world ''in/full.pdf'' ''out'' 300)) = files empty_world
        \<or> (\<exists>imgs n. convert_from_path demo_env ''in/full.pdf'' 300 = Inr imgs \<and> imgs \<noteq> []
              \<and> open_w demo_env (output_path ''in/full.pdf'' ''out'') = None
              \<and> write_text demo_env (output_path ''in/full.pdf'' ''out'') (artifact demo_env imgs)
                   = Some (n, ''No space left on device'')
              \<and> files (fst (process_single_pdf demo_env empty_world ''in/full.pdf'' ''out'' 300))
                   = (files empty_world)(output_path ''in/full.pdf'' ''out'' \<mapsto> take n (artifact demo_env imgs))))
   \<and> process_single_pdf demo_env empty_world ''in/sub/a.pdf'' ''out'' 300
     = (fst (process_single_pdf demo_env empty_world ''in/sub/a.pdf'' ''out'' 300),
        (True, ''in/sub/a.pdf'', ''out/a.txt''))
   \<and> (files empty_world (output_path ''in/sub/a.pdf'' ''out'') \<noteq> None
          \<and> fst (process_single_pdf demo_env empty_world ''in/sub/a.pdf'' ''out'' 300) = empty_world
        \<or> (\<exists>imgs. convert_from_path demo_env ''in/sub/a.pdf'' 300 = Inr imgs \<and> imgs \<noteq> []
              \<and> files (fst (process_single_pdf demo_env empty_world ''in/sub/a.pdf'' ''out'' 300))
                   = (files empty_world)(output_path ''in/sub/a.pdf'' ''out'' \<mapsto> artifact demo_env imgs)))"
proof -
  have s1: "snd (process_single_pdf demo_env empty_world ''in/full.pdf'' ''out'' 300)
              = (False, ''in/full.pdf'', ''No space left on device'')" by code_simp
  have h1: "process_single_pdf demo_env empty_world ''in/full.pdf'' ''out'' 300
     = (fst (process_single_pdf demo_env empty_world ''in/full.pdf'' ''out'' 300),
        (False, ''in/full.pdf'', ''No space left on device''))"
    using s1 by (metis prod.collapse)
  have s2: "snd (process_single_pdf demo_env empty_world ''in/sub/a.pdf'' ''out'' 300)
              = (True, ''in/sub/a.pdf'', ''out/a.txt'')" by code_simp
  have h2: "process_single_pdf demo_env empty_world ''in/sub/a.pdf'' ''out'' 300
     = (fst (process_single_pdf demo_env empty_world ''in/sub/a.pdf'' ''out'' 300),
        (True, ''in/sub/a.pdf'', ''out/a.txt''))"
    using s2 by (metis prod.collapse)
  show ?thesis
    using write_step_outcomes [OF h1] write_step_outcomes [OF h2] h1 h2 by simp
qed

subsection \<open>Discovery\<close>

lemma find_pdfs_Some: "find_pdfs root (Some es) = pdfs_of (walk root es)"
  by (simp add: find_pdfs_def os_walk_def pdfs_of_def)

lemma find_pdfs_None: "find_pdfs root None = []"
  by (simp add: find_pdfs_def os_walk_def)

lemma is_pdf_name_eq: "(\<lambda>file. endswith (lower file) ''.pdf'') = is_pdf_name"
  by (rule ext) (simp add: is_pdf_name_def)

lemma pdfs_of_Cons:
  "pdfs_of ((root, ds, fs) # ts) = map (path_join root) (filter is_pdf_name fs) @ pdfs_of ts"
  by (simp add: pdfs_of_def is_pdf_name_eq)

lemma pdfs_of_append: "pdfs_of (ts @ us) = pdfs_of ts @ pdfs_of us"
  by (simp add: pdfs_of_def)

lemma pdfs_of_Nil: "pdfs_of [] = []"
  by (simp add: pdfs_of_def)

lemma set_pdfs_of:
  "p \<in> set (pdfs_of ts) \<longleftrightarrow>
     (\<exists>dir ds fs name. (dir, ds, fs) \<in> set ts \<and> name \<in> set fs \<and> is_pdf_name name
        \<and> p = path_join dir name)"
proof (induction ts)
  case Nil
  then show ?case by (simp add: pdfs_of_Nil)
next
  case (Cons t ts)
  obtain dir0 ds0 fs0 where t: "t = (dir0, ds0, fs0)" by (cases t) auto
  have "p \<in> set (pdfs_of (t # ts)) \<longleftrightarrow>
          (\<exists>name. name \<in> set fs0 \<and> is_pdf_name name \<and> p = path_join dir0 name)
          \<or> p \<in> set (pdfs_of ts)"
    unfolding t pdfs_of_Cons by auto
  then show ?case unfolding Cons.IH t by (simp only: set_simps insert_iff) blast
qed

lemma file_names_iff: "name \<in> set (file_names es) \<longleftrightarrow> File name \<in> set es"
  by (induction es rule: file_names.induct) auto

lemma walk_dirs_iff:
  "t \<in> set (walk_dirs root es) \<longleftrightarrow>
     (\<exists>d sub. Dir d sub \<in> set es \<and> t \<in> set (walk (path_join root d) sub))"
proof (induction es)
  case Nil
  then show ?case by simp
next
  case (Cons x es)
  show ?case
  proof (cases x)
    case (File n)
    then show ?thesis using Cons.IH by simp
  next
    case (Dir n sub)
    have "t \<in> set (walk_dirs root (x # es)) \<longleftrightarrow>
            t \<in> set (walk (path_join root n) sub) \<or> t \<in> set (walk_dirs root es)"
      by (simp add: Dir del: walk.simps)
    then show ?thesis unfolding Cons.IH Dir by (simp only: set_simps insert_iff) blast
  qed
qed

lemma size_sub: "Dir d sub \<in> set es \<Longrightarrow> size_list size sub < size_list size es"
  by (induction es) auto

lemma walk_mem:
  "t \<in> set (walk root es) \<longleftrightarrow>
     t = (root, dir_names es, file_names es) \<or> t \<in> set (walk_dirs root es)"
  by simp

lemma walk_sound:
  "(dir, ds, fs) \<in> set (walk root es) \<Longrightarrow> name \<in> set fs \<Longrightarrow> file_at root es dir name"
proof (induction es arbitrary: root rule: measure_induct_rule [where f = "size_list size"])
  case (less es)
  from less.prems(1) consider "(dir, ds, fs) = (root, dir_names es, file_names es)"
    | "(dir, ds, fs) \<in> set (walk_dirs root es)" unfolding walk_mem by blast
  then show ?case
  proof cases
    case 1
    then have "File name \<in> set es" "dir = root" using less.prems(2) by (simp_all add: file_names_iff)
    then show ?thesis by (simp add: file_at.here)
  next
    case 2
    then obtain d sub where ds: "Dir d sub \<in> set es"
      and t: "(dir, ds, fs) \<in> set (walk (path_join root d) sub)"
      unfolding walk_dirs_iff by blast
    have "file_at (path_join root d) sub dir name"
      using less.IH [OF size_sub [OF ds] t less.prems(2)] .
    with ds show ?thesis by (rule file_at.below)
  qed
qed

lemma walk_complete:
  "file_at root es dir name \<Longrightarrow> \<exists>ds fs. (dir, ds, fs) \<in> set (walk root es) \<and> name \<in> set fs"
proof (induction rule: file_at.induct)
  case (here name es root)
  have "(root, dir_names es, file_names es) \<in> set (walk root es)" unfolding walk_mem by blast
  moreover have "name \<in> set (file_names es)" using here by (simp add: file_names_iff)
  ultimately show ?case by blast
next
  case (below d sub es root dir name)
  then obtain ds fs where m: "(dir, ds, fs) \<in> set (walk (path_join root d) sub)" and n: "name \<in> set fs"
    by blast
  from m below.hyps(1) have "(dir, ds, fs) \<in> set (walk_dirs root es)" unfolding walk_dirs_iff by blast
  then have "(dir, ds, fs) \<in> set (walk root es)" unfolding walk_mem by blast
  with n show ?case by blast
qed

lemma find_pdfs_iff:
  "p \<in> set (find_pdfs root (Some es)) \<longleftrightarrow>
     (\<exists>dir name. file_at root es dir name \<and> is_pdf_name name \<and> p = path_join dir name)"
  unfolding find_pdfs_Some set_pdfs_of using walk_sound walk_complete by blast

lemma length_pdfs_walk:
  "length (pdfs_of (walk root es)) = count_pdfs es"
  "length (pdfs_of (walk_dirs root es)) + length (filter is_pdf_name (file_names es)) = count_pdfs es"
proof (induction root es and root es rule: walk_walk_dirs.induct)
  case (1 root es)
  then show ?case by (simp add: pdfs_of_Cons)
next
  case (2 root)
  then show ?case by (simp add: pdfs_of_Nil)
next
  case (3 root n es)
  then show ?case by simp
next
  case (4 root n sub es)
  have "length (pdfs_of (walk_dirs root (Dir n sub # es)))
        = length (pdfs_of (walk (path_join root n) sub)) + length (pdfs_of (walk_dirs root es))"
    by (simp add: pdfs_of_append del: walk.simps)
  then show ?case using 4 by (simp del: walk.simps)
qed


text \<open>
  C9. Discovery walks the whole tree: a path is returned exactly when it joins a
  directory of the tree with the name of a file in it that ends in \<^verbatim>\<open>.pdf\<close>, in any case of
  the letters, and the list has one entry for each such file. A root that does not
  exist, or holds nothing, gives the empty list, and once the output directory has been
  made the batch operation returns the zeroed statistics with the world as it was.
\<close>

theorem discovery_exact:
  "(p \<in> set (find_pdfs root (Some es)) \<longleftrightarrow>
      (\<exists>dir name. file_at root es dir name \<and> is_pdf_name name \<and> p = path_join dir name))
   \<and> length (find_pdfs root (Some es)) = count_pdfs es
   \<and> find_pdfs root None = [] \<and> find_pdfs root (Some []) = []
   \<and> (makedirs e out = None \<and> (tree = None \<or> tree = Some [])
        \<longrightarrow> ocr_pdfs_to_text e w tree sched root out dpi mw = (w, Inr zero_stats))"
proof -
  have a: "find_pdfs root (Some []) = []"
    by (simp add: find_pdfs_Some pdfs_of_Cons pdfs_of_Nil)
  have b: "makedirs e out = None \<Longrightarrow> tree = None \<or> tree = Some [] \<Longrightarrow>
           ocr_pdfs_to_text e w tree sched root out dpi mw = (w, Inr zero_stats)"
    using a find_pdfs_None [of root] by (auto simp: ocr_pdfs_to_text_def zero_stats_def)
  show ?thesis
    using find_pdfs_iff [of p root es] length_pdfs_walk(1) [of root es] a b find_pdfs_None [of root]
    by (simp add: find_pdfs_Some)
qed

theorem discovery_exact_witness:
  "find_pdfs ''in'' (Some demo_tree) = [''in/bad.pdf'', ''in/zero.pdf'', ''in/sub/a.pdf'', ''in/sub/B.PDF'']
   \<and> (\<exists>dir name. file_at ''in'' demo_tree dir name \<and> is_pdf_name name
         \<and> ''in/sub/B.PDF'' = path_join dir name)
   \<and> count_pdfs demo_tree = 4
   \<and> makedirs demo_env ''out'' = None
   \<and> ocr_pdfs_to_text demo_env empty_world None [] ''missing'' ''out'' 300 (Some 4)
       = (empty_world, Inr zero_stats)"
proof -
  have l: "find_pdfs ''in'' (Some demo_tree)
           = [''in/bad.pdf'', ''in/zero.pdf'', ''in/sub/a.pdf'', ''in/sub/B.PDF'']" by code_simp
  have m: "''in/sub/B.PDF'' \<in> set (find_pdfs ''in'' (Some demo_tree))" unfolding l by simp
  have c: "count_pdfs demo_tree = 4" by code_simp
  have h: "makedirs demo_env ''out'' = None" by code_simp
  note t = discovery_exact [where p = "''in/sub/B.PDF''" and root = "''in''" and es = demo_tree
             and e = demo_env and out = "''out''" and tree = None]
  note u = discovery_exact [where root = "''missing''" and e = demo_env and out = "''out''"
             and tree = None and w = empty_world and sched = "[]" and dpi = 300 and mw = "Some 4"]
  show ?thesis using t u l m c h by simp
qed

subsection \<open>The multi-DPI utility\<close>

text \<open>
  C10. For every non-empty \<^verbatim>\<open>dpi_list\<close>, \<^verbatim>\<open>batch_ocr_processing\<close> raises \<^verbatim>\<open>NameError\<close> for the
  name \<^verbatim>\<open>logger\<close> in its first iteration: the world it leaves is the world it was given,
  so no document has been rasterised, recognised or written.
\<close>

theorem batch_ocr_processing_raises_NameError:
  "dpi_list \<noteq> [] \<Longrightarrow>
   batch_ocr_processing e w tree sched input_folder output_base_folder dpi_list
     = (w, Inl (NameError ''logger''))"
  by (cases dpi_list)
     (simp_all add: batch_ocr_processing_def load_global_def module_globals_def Let_def)

theorem batch_ocr_processing_witness:
  "[200, 300, 400] \<noteq> ([] :: int list)
   \<and> batch_ocr_processing demo_env empty_world (Some demo_tree) (\<lambda>dpi. []) ''in'' ''out''
        [200, 300, 400]
      = (empty_world, Inl (NameError ''logger''))"
  using batch_ocr_processing_raises_NameError
          [where dpi_list = "[200, 300, 400]" and e = demo_env and w = empty_world
             and tree = "Some demo_tree" and sched = "\<lambda>dpi. []" and input_folder = "''in''"
             and output_base_folder = "''out''"]
  by simp

subsection \<open>Statistics\<close>

lemma tally_total [simp]: "total (tally r st) = total st"
  by (cases r) (simp add: tally_def)

lemma tally_counts:
  "successful (tally r st) + failed (tally r st) = Suc (successful st + failed st)"
  by (cases r) (simp add: tally_def)

lemma tally_errors:
  "length (errors (tally r st)) + failed st = length (errors st) + failed (tally r st)"
  by (cases r) (simp add: tally_def)

lemma fold_tally_counts:
  "total (fold tally rs st) = total st
   \<and> successful (fold tally rs st) + failed (fold tally rs st)
       = successful st + failed st + length rs
   \<and> length (errors (fold tally rs st)) + failed st
       = length (errors st) + failed (fold tally rs st)"
proof (induction rs arbitrary: st)
  case Nil
  then show ?case by simp
next
  case (Cons r rs)
  show ?case
    using Cons.IH [of "tally r st"] tally_counts [of r st] tally_errors [of r st]
    by simp
qed

subsection \<open>The sequential loop as a list of outcomes\<close>

lemma run_sequential_seq_run:
  "run_sequential e out dpi ps (w, st)
     = (fst (seq_run e out dpi ps w), fold tally (snd (seq_run e out dpi ps w)) st)"
  by (induction ps arbitrary: w st) (simp_all add: split_beta)

lemma length_seq_run: "length (snd (seq_run e out dpi ps w)) = length ps"
  by (induction ps arbitrary: w) (simp_all add: split_beta)

subsection \<open>The pool: what every step keeps\<close>

lemma fold_invariant:
  "(\<And>i p. I p \<Longrightarrow> I (f i p)) \<Longrightarrow> I p \<Longrightarrow> I (fold f xs p)"
  by (induction xs arbitrary: p) simp_all

lemma pool_run_invariant:
  assumes init: "I \<lparr>pworld = w, tasks = replicate (length ps) Queued, completed = []\<rparr>"
    and step: "\<And>i p. I p \<Longrightarrow> I (pool_advance e out dpi ps i p)"
  shows "I (pool_run e out dpi k sched ps w)"
proof -
  have s1: "\<And>i p. I p \<Longrightarrow> I (pool_step e out dpi k ps i p)"
    by (simp add: pool_step_def step)
  have s2: "\<And>i p. I p \<Longrightarrow> I (pool_drain e out dpi ps i p)"
    by (simp add: pool_drain_def step)
  have s3: "\<And>i p. I p \<Longrightarrow> I (pool_finish e out dpi ps i p)"
    by (simp add: pool_finish_def step)
  show ?thesis
    unfolding pool_run_def Let_def
    by (intro fold_invariant [where I = I] s1 s2 s3 init)
qed

lemma pool_advance_length [simp]:
  "length (tasks (pool_advance e out dpi ps i p)) = length (tasks p)"
  by (simp add: pool_advance_def split: task.splits sum.splits prod.splits)

lemma pool_advance_other:
  "j \<noteq> i \<Longrightarrow> tasks (pool_advance e out dpi ps i p) ! j = tasks p ! j"
  by (simp add: pool_advance_def split: task.splits sum.splits prod.splits)

lemma pool_advance_Finished:
  "tasks p ! j = Finished \<Longrightarrow> tasks (pool_advance e out dpi ps i p) ! j = Finished"
  by (cases "j = i") (simp_all add: pool_advance_other, simp add: pool_advance_def)

lemma pool_finish_length [simp]:
  "length (tasks (pool_finish e out dpi ps i p)) = length (tasks p)"
  by (simp add: pool_finish_def)

lemma pool_finish_Finished:
  "tasks p ! j = Finished \<Longrightarrow> tasks (pool_finish e out dpi ps i p) ! j = Finished"
  by (simp add: pool_finish_def pool_advance_Finished)

lemma pool_advance_started:
  "i < length ps \<Longrightarrow> i < length (tasks p) \<Longrightarrow>
   tasks (pool_advance e out dpi ps i p) ! i \<noteq> Queued"
  by (auto simp: pool_advance_def split: task.splits sum.splits prod.splits)

lemma pool_advance_ended:
  "i < length ps \<Longrightarrow> i < length (tasks p) \<Longrightarrow> tasks p ! i \<noteq> Queued \<Longrightarrow>
   tasks (pool_advance e out dpi ps i p) ! i = Finished"
  by (auto simp: pool_advance_def split: task.splits sum.splits prod.splits)

lemma pool_finish_done:
  assumes "i < length ps" "i < length (tasks p)"
  shows "tasks (pool_finish e out dpi ps i p) ! i = Finished"
proof -
  let ?q = "pool_advance e out dpi ps i p"
  have l: "i < length (tasks ?q)" using assms by simp
  have "tasks ?q ! i \<noteq> Queued" using assms by (rule pool_advance_started)
  then show ?thesis
    unfolding pool_finish_def using pool_advance_ended [OF assms(1) l] by blast
qed

lemma fold_pool_finish_upto:
  assumes "k \<le> length ps" "length (tasks p) = length ps"
  shows "length (tasks (fold (pool_finish e out dpi ps) [0..<k] p)) = length ps
         \<and> (\<forall>j<k. tasks (fold (pool_finish e out dpi ps) [0..<k] p) ! j = Finished)"
  using assms(1)
proof (induction k)
  case 0
  then show ?case using assms(2) by simp
next
  case (Suc k)
  let ?q = "fold (pool_finish e out dpi ps) [0..<k] p"
  have ih: "length (tasks ?q) = length ps" "\<forall>j<k. tasks ?q ! j = Finished"
    using Suc by simp_all
  have f: "fold (pool_finish e out dpi ps) [0..<Suc k] p = pool_finish e out dpi ps k ?q"
    by simp
  have d: "tasks (pool_finish e out dpi ps k ?q) ! k = Finished"
    using Suc.prems ih(1) by (intro pool_finish_done) simp_all
  show ?case
    unfolding f using ih d by (auto simp: less_Suc_eq pool_finish_Finished)
qed

lemma pool_run_tasks:
  "length (tasks (pool_run e out dpi k sched ps w)) = length ps
   \<and> (\<forall>j<length ps. tasks (pool_run e out dpi k sched ps w) ! j = Finished)"
proof -
  let ?p0 = "\<lparr>pworld = w, tasks = replicate (length ps) Queued, completed = []\<rparr>"
  let ?p1 = "fold (pool_step e out dpi k ps) sched ?p0"
  let ?p2 = "fold (pool_drain e out dpi ps) [0..<length ps] ?p1"
  have l1: "length (tasks ?p1) = length ps"
    by (rule fold_invariant [where I = "\<lambda>p. length (tasks p) = length ps"])
       (simp_all add: pool_step_def)
  have l2: "length (tasks ?p2) = length ps"
    by (rule fold_invariant [where I = "\<lambda>p. length (tasks p) = length ps"])
       (simp_all add: pool_drain_def l1)
  show ?thesis
    unfolding pool_run_def Let_def using fold_pool_finish_upto [OF le_refl l2] by blast
qed


lemma finished_set_update:
  assumes "i < length ts" "ts ! i \<noteq> Finished"
  shows "{j. j < length ts \<and> ts[i := Finished] ! j = Finished}
         = insert i {j. j < length ts \<and> ts ! j = Finished}"
  using assms by (auto simp: nth_list_update)

lemma finished_set_same:
  assumes "i < length ts" "ts ! i \<noteq> Finished" "t \<noteq> Finished"
  shows "{j. j < length ts \<and> ts[i := t] ! j = Finished} = {j. j < length ts \<and> ts ! j = Finished}"
  using assms by (auto simp: nth_list_update)

lemma card_finished_update:
  assumes "i < length ts" "ts ! i \<noteq> Finished"
  shows "card {j. j < length ts \<and> ts[i := Finished] ! j = Finished}
         = Suc (card {j. j < length ts \<and> ts ! j = Finished})"
proof -
  have "finite {j. j < length ts \<and> ts ! j = Finished}" by simp
  moreover have "i \<notin> {j. j < length ts \<and> ts ! j = Finished}" using assms by simp
  ultimately show ?thesis unfolding finished_set_update [OF assms] by simp
qed

lemma pool_advance_counted:
  assumes "counted (length ps) p"
  shows "counted (length ps) (pool_advance e out dpi ps i p)"
proof (cases "i < length ps")
  case False
  then show ?thesis using assms by (simp add: pool_advance_def)
next
  case True
  have len: "length (tasks p) = length ps"
    and cnt: "length (completed p) = card {j. j < length (tasks p) \<and> tasks p ! j = Finished}"
    using assms by (simp_all add: counted_def)
  have il: "i < length (tasks p)" using True len by simp
  show ?thesis
  proof (cases "tasks p ! i")
    case Queued
    then have nf: "tasks p ! i \<noteq> Finished" by simp
    show ?thesis
    proof (cases "read_pdf e (pworld p) (ps ! i) out dpi")
      case (Pair w' res)
      show ?thesis
      proof (cases res)
        case (Inl r)
        then show ?thesis
          using True il Queued Pair len cnt card_finished_update [OF il nf]
          by (simp add: pool_advance_def counted_def)
      next
        case (Inr ft)
        obtain f t where ft: "ft = (f, t)" by (cases ft) auto
        show ?thesis
          using True il Queued Pair Inr ft len cnt
            finished_set_same [OF il nf, of "Writing f t"]
          by (simp add: pool_advance_def counted_def)
      qed
    qed
  next
    case (Writing f t)
    then have nf: "tasks p ! i \<noteq> Finished" by simp
    show ?thesis
      using True il Writing len cnt card_finished_update [OF il nf]
      by (simp add: pool_advance_def counted_def split_beta)
  next
    case Finished
    then show ?thesis using assms True il by (simp add: pool_advance_def)
  qed
qed

lemma pool_run_completed_length:
  "length (completed (pool_run e out dpi k sched ps w)) = length ps"
proof -
  let ?p = "pool_run e out dpi k sched ps w"
  have "counted (length ps) ?p"
  proof (rule pool_run_invariant [where I = "counted (length ps)"])
    show "counted (length ps) \<lparr>pworld = w, tasks = replicate (length ps) Queued, completed = []\<rparr>"
      by (simp add: counted_def)
  next
    fix i p
    assume "counted (length ps) p"
    then show "counted (length ps) (pool_advance e out dpi ps i p)" by (rule pool_advance_counted)
  qed
  then have "length (completed ?p) = card {j. j < length ps \<and> tasks ?p ! j = Finished}"
    by (simp add: counted_def)
  also have "{j. j < length ps \<and> tasks ?p ! j = Finished} = {j. j < length ps}"
    using pool_run_tasks [of e out dpi k sched ps w] by auto
  finally show ?thesis by simp
qed

subsection \<open>Completeness of the statistics\<close>

text \<open>
  C3. Once the output directory has been made, \<^verbatim>\<open>ocr_pdfs_to_text\<close> returns statistics and
  never an exception, whatever the corpus, the mode and the interleaving of the pool:
  \<^verbatim>\<open>total\<close> is the number of documents discovered, \<^verbatim>\<open>successful + failed\<close> equals \<^verbatim>\<open>total\<close>, and
  the list of errors has \<^verbatim>\<open>failed\<close> entries. (\<^verbatim>\<open>os.makedirs\<close> runs before discovery and outside
  any handler; its failure is the one exception the batch operation lets through.)
\<close>

theorem batch_statistics_complete:
  assumes "makedirs e output_folder = None"
  shows "\<exists>w' st. ocr_pdfs_to_text e w tree sched input_folder output_folder dpi max_workers
                   = (w', Inr st)
           \<and> total st = length (find_pdfs input_folder tree)
           \<and> successful st + failed st = total st
           \<and> length (errors st) = failed st"
proof -
  let ?ps = "find_pdfs input_folder tree"
  let ?st0 = "\<lparr>total = length ?ps, successful = 0, failed = 0, errors = []\<rparr>"
  have good: "\<And>rs. length rs = length ?ps \<Longrightarrow>
                total (fold tally rs ?st0) = length ?ps
                \<and> successful (fold tally rs ?st0) + failed (fold tally rs ?st0)
                    = total (fold tally rs ?st0)
                \<and> length (errors (fold tally rs ?st0)) = failed (fold tally rs ?st0)"
    using fold_tally_counts [of _ ?st0] by simp
  show ?thesis
  proof (cases "?ps = []")
    case True
    then show ?thesis using assms by (simp add: ocr_pdfs_to_text_def)
  next
    case False
    show ?thesis
    proof (cases "case max_workers of None \<Rightarrow> False | Some k \<Rightarrow> k \<noteq> 0 \<and> k > 1")
      case True
      let ?p = "pool_run e output_folder dpi (nat (the max_workers)) sched ?ps w"
      have "ocr_pdfs_to_text e w tree sched input_folder output_folder dpi max_workers
            = (pworld ?p, Inr (fold tally (completed ?p) ?st0))"
        using assms False True by (simp add: ocr_pdfs_to_text_def run_parallel_def Let_def)
      then show ?thesis using good [OF pool_run_completed_length] by simp
    next
      case seq: False
      let ?r = "seq_run e output_folder dpi ?ps w"
      have "ocr_pdfs_to_text e w tree sched input_folder output_folder dpi max_workers
            = (fst ?r, Inr (fold tally (snd ?r) ?st0))"
        using assms False seq by (simp add: ocr_pdfs_to_text_def run_sequential_seq_run Let_def)
      then show ?thesis using good [OF length_seq_run] by simp
    qed
  qed
qed

theorem batch_statistics_complete_witness:
  "makedirs demo_env ''out'' = None
   \<and> (\<exists>w' st. ocr_pdfs_to_text demo_env empty_world (Some demo_tree) [1, 0, 1] ''in'' ''out'' 300 (Some 4)
                 = (w', Inr st)
         \<and> total st = 4 \<and> successful st + failed st = total st \<and> length (errors st) = failed st)
   \<and> snd (ocr_pdfs_to_text demo_env empty_world (Some demo_tree) [1, 0, 1] ''in'' ''out'' 300 (Some 4))
       = Inr \<lparr>total = 4, successful = 2, failed = 2,
               errors = [''in/zero.pdf: No images extracted'', ''in/bad.pdf: Unable to get page count'']\<rparr>"
proof -
  have h: "makedirs demo_env ''out'' = None" by code_simp
  have l: "length (find_pdfs ''in'' (Some demo_tree)) = 4" by code_simp
  have v: "snd (ocr_pdfs_to_text demo_env empty_world (Some demo_tree) [1, 0, 1] ''in'' ''out'' 300 (Some 4))
       = Inr \<lparr>total = 4, successful = 2, failed = 2,
               errors = [''in/zero.pdf: No images extracted'', ''in/bad.pdf: Unable to get page count'']\<rparr>"
    by code_simp
  show ?thesis
    using batch_statistics_complete [OF h, of empty_world "Some demo_tree" "[1, 0, 1]" "''in''" 300 "Some 4"]
      h l v by simp
qed

subsection \<open>The sequential loop is the pool with no interleaving\<close>

lemma seq_run_snoc:
  "seq_run e out dpi (xs @ [p]) w =
     (case seq_run e out dpi xs w of
        (w', rs) \<Rightarrow> (case process_single_pdf e w' p out dpi of (w'', r) \<Rightarrow> (w'', rs @ [r])))"
  by (induction xs arbitrary: w) (simp_all add: split_beta)

lemma pool_finish_Queued:
  assumes "i < length ps" "i < length (tasks p)" "tasks p ! i = Queued"
  shows "pool_finish e out dpi ps i p =
           \<lparr>pworld = fst (process_single_pdf e (pworld p) (ps ! i) out dpi),
            tasks = (tasks p)[i := Finished],
            completed = completed p @ [snd (process_single_pdf e (pworld p) (ps ! i) out dpi)]\<rparr>"
proof (cases "read_pdf e (pworld p) (ps ! i) out dpi")
  case (Pair w' res)
  show ?thesis
  proof (cases res)
    case (Inl r)
    then show ?thesis
      using assms Pair
      by (simp add: pool_finish_def pool_advance_def process_single_pdf_def)
  next
    case (Inr ft)
    obtain f t where ft: "ft = (f, t)" by (cases ft) auto
    show ?thesis
      using assms Pair Inr ft
      by (simp add: pool_finish_def pool_advance_def process_single_pdf_def split_beta)
  qed
qed

lemma replicate_update:
  "k < n \<Longrightarrow> (replicate k a @ replicate (n - k) b)[k := a]
               = replicate (Suc k) a @ replicate (n - Suc k) b"
proof -
  assume "k < n"
  then have "replicate (n - k) b = b # replicate (n - Suc k) b"
    by (metis Suc_diff_Suc replicate_Suc)
  then show ?thesis by (simp add: list_update_append replicate_append_same)
qed

lemma fold_pool_finish_seq:
  assumes "k \<le> length ps"
  shows "fold (pool_finish e out dpi ps) [0..<k]
           \<lparr>pworld = w, tasks = replicate (length ps) Queued, completed = []\<rparr>
         = \<lparr>pworld = fst (seq_run e out dpi (take k ps) w),
            tasks = replicate k Finished @ replicate (length ps - k) Queued,
            completed = snd (seq_run e out dpi (take k ps) w)\<rparr>"
  using assms
proof (induction k)
  case 0
  then show ?case by simp
next
  case (Suc k)
  let ?q = "\<lparr>pworld = fst (seq_run e out dpi (take k ps) w),
            tasks = replicate k Finished @ replicate (length ps - k) Queued,
            completed = snd (seq_run e out dpi (take k ps) w)\<rparr>"
  have kl: "k < length ps" using Suc.prems by simp
  have ih: "fold (pool_finish e out dpi ps) [0..<k]
              \<lparr>pworld = w, tasks = replicate (length ps) Queued, completed = []\<rparr> = ?q"
    using Suc by simp
  have q1: "k < length (tasks ?q)" using kl by simp
  have q2: "tasks ?q ! k = Queued" using kl by (simp add: nth_append)
  have t: "take (Suc k) ps = take k ps @ [ps ! k]" using kl by (simp add: take_Suc_conv_app_nth)
  have "fold (pool_finish e out dpi ps) [0..<Suc k]
          \<lparr>pworld = w, tasks = replicate (length ps) Queued, completed = []\<rparr>
        = pool_finish e out dpi ps k ?q"
    using ih by simp
  also have "\<dots> = \<lparr>pworld = fst (process_single_pdf e (pworld ?q) (ps ! k) out dpi),
            tasks = (tasks ?q)[k := Finished],
            completed = completed ?q @ [snd (process_single_pdf e (pworld ?q) (ps ! k) out dpi)]\<rparr>"
    using kl q1 q2 by (rule pool_finish_Queued)
  also have "\<dots> = \<lparr>pworld = fst (seq_run e out dpi (take (Suc k) ps) w),
            tasks = replicate (Suc k) Finished @ replicate (length ps - Suc k) Queued,
            completed = snd (seq_run e out dpi (take (Suc k) ps) w)\<rparr>"
    unfolding t seq_run_snoc using replicate_update [OF kl, of Finished Queued]
    by (simp add: split_beta)
  finally show ?case .
qed

lemma pool_drain_Queued:
  "tasks p = replicate n Queued \<Longrightarrow> pool_drain e out dpi ps i p = p"
  by (simp add: pool_drain_def cong: conj_cong)

lemma pool_run_sequential:
  "pool_run e out dpi k [] ps w =
     \<lparr>pworld = fst (seq_run e out dpi ps w), tasks = replicate (length ps) Finished,
      completed = snd (seq_run e out dpi ps w)\<rparr>"
proof -
  let ?p0 = "\<lparr>pworld = w, tasks = replicate (length ps) Queued, completed = []\<rparr>"
  have "fold (pool_drain e out dpi ps) [0..<length ps] ?p0 = ?p0"
    by (rule fold_invariant [where I = "\<lambda>p. p = ?p0"])
       (simp_all add: pool_drain_def cong: conj_cong)
  then show ?thesis
    unfolding pool_run_def Let_def using fold_pool_finish_seq [OF le_refl, of e out dpi ps w]
    by simp
qed

lemma batch_as_pool:
  assumes "makedirs e out = None"
  shows "\<exists>k s. ocr_pdfs_to_text e w tree sched inp out dpi mw =
           (pworld (pool_run e out dpi k s (find_pdfs inp tree) w),
            Inr (fold tally (completed (pool_run e out dpi k s (find_pdfs inp tree) w))
                   (initial_stats (length (find_pdfs inp tree)))))"
proof -
  let ?ps = "find_pdfs inp tree"
  show ?thesis
  proof (cases "?ps = []")
    case True
    have "pool_run e out dpi 0 [] ?ps w = \<lparr>pworld = w, tasks = [], completed = []\<rparr>"
      unfolding pool_run_sequential using True by simp
    then have "ocr_pdfs_to_text e w tree sched inp out dpi mw =
           (pworld (pool_run e out dpi 0 [] ?ps w),
            Inr (fold tally (completed (pool_run e out dpi 0 [] ?ps w)) (initial_stats (length ?ps))))"
      using assms True by (simp add: ocr_pdfs_to_text_def initial_stats_def)
    then show ?thesis by blast
  next
    case False
    show ?thesis
    proof (cases "case mw of None \<Rightarrow> False | Some k \<Rightarrow> k \<noteq> 0 \<and> k > 1")
      case True
      have "ocr_pdfs_to_text e w tree sched inp out dpi mw =
           (pworld (pool_run e out dpi (nat (the mw)) sched ?ps w),
            Inr (fold tally (completed (pool_run e out dpi (nat (the mw)) sched ?ps w))
                   (initial_stats (length ?ps))))"
        using assms False True
        by (simp add: ocr_pdfs_to_text_def run_parallel_def Let_def initial_stats_def)
      then show ?thesis by blast
    next
      case seq: False
      have "ocr_pdfs_to_text e w tree sched inp out dpi mw =
           (pworld (pool_run e out dpi 0 [] ?ps w),
            Inr (fold tally (completed (pool_run e out dpi 0 [] ?ps w)) (initial_stats (length ?ps))))"
        using assms False seq
        by (simp add: ocr_pdfs_to_text_def run_sequential_seq_run pool_run_sequential Let_def
              initial_stats_def)
      then show ?thesis by blast
    qed
  qed
qed

subsection \<open>What a step of a task can do\<close>

lemma read_pdf_Inl:
  assumes "read_pdf e w p out dpi = (w', Inl (ok, q, r))"
  shows "files w' = files w \<and> q = p
         \<and> (ok \<longrightarrow> files w (output_path p out) \<noteq> None \<and> w' = w \<and> r = output_path p out)
         \<and> (\<not> ok \<longrightarrow> files w (output_path p out) = None \<and> stuck e out dpi p)"
proof (cases "files w (output_path p out) = None")
  case False
  then show ?thesis using assms read_pdf_exists [of w p out e dpi] by auto
next
  case ne: True
  show ?thesis
  proof (cases "convert_from_path e p dpi")
    case (Inl err)
    then show ?thesis using assms read_pdf_raise [OF ne Inl] ne by (auto simp: stuck_def)
  next
    case (Inr imgs)
    show ?thesis
    proof (cases "imgs = []")
      case True
      then show ?thesis using assms read_pdf_zero [OF ne, of e dpi] Inr ne by (auto simp: stuck_def)
    next
      case False
      then show ?thesis using assms read_pdf_pages [OF ne Inr False] by simp
    qed
  qed
qed

lemma write_pdf_cases:
  assumes "write_pdf e w p f t = (w', (ok, q, r))"
  shows "q = p \<and> (\<forall>x. x \<noteq> f \<longrightarrow> files w' x = files w x)
         \<and> (ok \<longrightarrow> open_w e f = None \<and> files w' f = Some t \<and> r = f)
         \<and> (open_w e f = None \<longrightarrow> files w' f \<noteq> None)
         \<and> (open_w e f \<noteq> None \<longrightarrow> files w' = files w \<and> \<not> ok)"
proof (cases "open_w e f")
  case (Some err)
  then show ?thesis using assms write_pdf_open_fails [OF Some, of w p t] by auto
next
  case None
  show ?thesis
  proof (cases "write_text e f t")
    case wn: None
    then show ?thesis using assms write_pdf_ok [OF None wn, of w p] None by auto
  next
    case (Some nerr)
    then obtain n err where ws: "write_text e f t = Some (n, err)" by (cases nerr) auto
    show ?thesis using assms write_pdf_partial [OF None ws, of w p] None by auto
  qed
qed

lemma write_pdf_mono:
  "files w x \<noteq> None \<Longrightarrow> files (fst (write_pdf e w p f t)) x \<noteq> None"
  by (simp add: write_pdf_def Let_def split: option.splits prod.splits)

lemma pool_advance_cases [consumes 2, case_names read_done read_more written idle]:
  assumes "i < length ps" "i < length (tasks p)"
  obtains
    (read_done) w' r where "tasks p ! i = Queued"
      "read_pdf e (pworld p) (ps ! i) out dpi = (w', Inl r)"
      "pool_advance e out dpi ps i p
         = \<lparr>pworld = w', tasks = (tasks p)[i := Finished], completed = completed p @ [r]\<rparr>"
  | (read_more) w' f t where "tasks p ! i = Queued"
      "read_pdf e (pworld p) (ps ! i) out dpi = (w', Inr (f, t))"
      "pool_advance e out dpi ps i p
         = \<lparr>pworld = w', tasks = (tasks p)[i := Writing f t], completed = completed p\<rparr>"
  | (written) f t w' r where "tasks p ! i = Writing f t"
      "write_pdf e (pworld p) (ps ! i) f t = (w', r)"
      "pool_advance e out dpi ps i p
         = \<lparr>pworld = w', tasks = (tasks p)[i := Finished], completed = completed p @ [r]\<rparr>"
  | (idle) "tasks p ! i = Finished" "pool_advance e out dpi ps i p = p"
proof (cases "tasks p ! i")
  case Queued
  show ?thesis
  proof (cases "read_pdf e (pworld p) (ps ! i) out dpi")
    case (Pair w' res)
    show ?thesis
    proof (cases res)
      case (Inl r)
      show ?thesis
        by (rule read_done [of w' r]) (use assms Queued Pair Inl in \<open>simp_all add: pool_advance_def\<close>)
    next
      case (Inr ft)
      obtain f t where ft: "ft = (f, t)" by (cases ft) auto
      show ?thesis
        by (rule read_more [of w' f t])
           (use assms Queued Pair Inr ft in \<open>simp_all add: pool_advance_def\<close>)
    qed
  qed
next
  case (Writing f t)
  obtain w' r where wr: "write_pdf e (pworld p) (ps ! i) f t = (w', r)"
    by (cases "write_pdf e (pworld p) (ps ! i) f t") auto
  show ?thesis
    by (rule written [of f t w' r]) (use assms Writing wr in \<open>simp_all add: pool_advance_def\<close>)
next
  case Finished
  show ?thesis
    by (rule idle) (use assms Finished in \<open>simp_all add: pool_advance_def\<close>)
qed

lemma pool_advance_out_of_range:
  "\<not> (i < length ps \<and> i < length (tasks p)) \<Longrightarrow> pool_advance e out dpi ps i p = p"
  unfolding pool_advance_def by (rule if_not_P)

lemma pool_advance_mono:
  assumes "files (pworld p) x \<noteq> None"
  shows "files (pworld (pool_advance e out dpi ps i p)) x \<noteq> None"
proof (cases "i < length ps \<and> i < length (tasks p)")
  case False
  then show ?thesis using assms by (simp add: pool_advance_out_of_range)
next
  case True
  then have a: "i < length ps" "i < length (tasks p)" by simp_all
  from a show ?thesis
  proof (cases rule: pool_advance_cases [where e = e and out = out and dpi = dpi])
    case (read_done w' r)
    then show ?thesis using assms read_pdf_files [of e "pworld p" "ps ! i" out dpi] by simp
  next
    case (read_more w' f t)
    then show ?thesis using assms read_pdf_files [of e "pworld p" "ps ! i" out dpi] by simp
  next
    case (written f t w' r)
    then show ?thesis using write_pdf_mono [OF assms, of e "ps ! i" f t] by simp
  next
    case idle
    then show ?thesis using assms by simp
  qed
qed

end
